theory Spec2Isabelle
  imports Main
begin

section \<open>Values, reflection and the store\<close>

text \<open>
  \<^verbatim>\<open>Layered[T]\<close> receives values of the interface type \<open>T\<close> and inspects them with
  package \<^verbatim>\<open>reflect\<close>. A value of \<open>T\<close> is the nil interface or carries a dynamic value;
  what the code can tell apart is its kind, whether it is zero, and (for a pointer) the
  object it points to:
  \<^item> \<open>NilIface\<close>: the nil interface, also what \<^verbatim>\<open>*new(T)\<close> is for an interface type and
    what \<^verbatim>\<open>reflect.ValueOf(nil)\<close> (the invalid \<^verbatim>\<open>reflect.Value{}\<close>) stands for;
  \<^item> \<open>NilPtr\<close>: a typed nil pointer;
  \<^item> \<open>Ptr a\<close>: a non-nil pointer to the object at address \<open>a\<close>;
  \<^item> \<open>NilRef\<close>: a nil map, slice, chan, func or unsafe pointer;
  \<^item> \<open>Ref n\<close>: a non-nil map, slice, chan, func or unsafe pointer;
  \<^item> \<open>ZeroVal\<close>: the zero value of any other type (a zero struct, 0, the empty string);
  \<^item> \<open>Plain n\<close>: a non-zero value of any other kind (struct, number, string, array).
\<close>

type_synonym addr = nat

datatype val = NilIface | NilPtr | Ptr addr | NilRef | Ref nat | ZeroVal | Plain nat

text \<open>A panic of the Go runtime is the value \<open>Panics\<close>; a normal return is \<open>Returns\<close>.\<close>

datatype 'a exec = Panics | Returns 'a

datatype kind = Invalid | Pointer | Nilable | Other

fun Kind :: "val \<Rightarrow> kind" where
  "Kind NilIface = Invalid"
| "Kind NilPtr = Pointer"
| "Kind (Ptr a) = Pointer"
| "Kind NilRef = Nilable"
| "Kind (Ref n) = Nilable"
| "Kind ZeroVal = Other"
| "Kind (Plain n) = Other"

text \<open>
  \<^verbatim>\<open>reflect.Value.IsZero\<close>: for a pointer, map, slice, chan or func it is \<^verbatim>\<open>IsNil\<close>; it
  panics on the invalid value.
\<close>

fun IsZero :: "val \<Rightarrow> bool exec" where
  "IsZero NilIface = Panics"
| "IsZero NilPtr = Returns True"
| "IsZero (Ptr a) = Returns False"
| "IsZero NilRef = Returns True"
| "IsZero (Ref n) = Returns False"
| "IsZero ZeroVal = Returns True"
| "IsZero (Plain n) = Returns False"

text \<open>
  \<^verbatim>\<open>reflect.Value.IsNil\<close> panics unless the kind is chan, func, interface, map, pointer
  or slice; so it does on the invalid value.
\<close>

fun IsNil :: "val \<Rightarrow> bool exec" where
  "IsNil NilPtr = Returns True"
| "IsNil (Ptr a) = Returns False"
| "IsNil NilRef = Returns True"
| "IsNil (Ref n) = Returns False"
| "IsNil NilIface = Panics"
| "IsNil ZeroVal = Panics"
| "IsNil (Plain n) = Panics"

text \<open>
  The store. A pointer points to a struct, with its dynamic type name and its fields by
  name, or to something that is not a struct. A field records whether
  \<^verbatim>\<open>CanSet\<close> holds for it (it is exported and reached through exported fields only),
  whether a value of \<open>T\<close> can be assigned to its declared type (it can when the field is
  the embedded interface \<open>T\<close>; a declared type that takes some values of \<open>T\<close> and not
  others is not modelled), and the value it holds.
\<close>

datatype field = Field (writable: bool) (assignable: bool) (content: val)

datatype obj = Struct string "string \<rightharpoonup> field" | NonStruct

type_synonym heap = "addr \<Rightarrow> obj"

text \<open>
  \<^verbatim>\<open>reflect.Value.Elem\<close> on what \<^verbatim>\<open>reflect.ValueOf\<close> made of a value of \<open>T\<close>: the
  pointee of a pointer (the invalid value for a nil pointer), a panic for every other kind.
\<close>

fun Elem :: "val \<Rightarrow> addr option exec" where
  "Elem (Ptr a) = Returns (Some a)"
| "Elem NilPtr = Returns None"
| "Elem NilIface = Panics"
| "Elem NilRef = Panics"
| "Elem (Ref n) = Panics"
| "Elem ZeroVal = Panics"
| "Elem (Plain n) = Panics"

text \<open>
  \<^verbatim>\<open>FieldByName\<close> panics unless the value is a struct and returns the invalid value
  when the struct has no field of that name. The field it returns is a reference into the
  store.
\<close>

datatype fieldref = NoField | FieldOf addr string

fun FieldByName :: "heap \<Rightarrow> addr option \<Rightarrow> string \<Rightarrow> fieldref exec" where
  "FieldByName h None name = Panics"
| "FieldByName h (Some a) name =
     (case h a of
        NonStruct \<Rightarrow> Panics
      | Struct t fs \<Rightarrow> (case fs name of None \<Rightarrow> Returns NoField | Some f \<Rightarrow> Returns (FieldOf a name)))"

fun lookup_field :: "heap \<Rightarrow> fieldref \<Rightarrow> field option" where
  "lookup_field h NoField = None"
| "lookup_field h (FieldOf a name) =
     (case h a of NonStruct \<Rightarrow> None | Struct t fs \<Rightarrow> fs name)"

definition IsValid :: "fieldref \<Rightarrow> bool" where
  "IsValid r = (r \<noteq> NoField)"

definition CanSet :: "heap \<Rightarrow> fieldref \<Rightarrow> bool" where
  "CanSet h r = (case lookup_field h r of None \<Rightarrow> False | Some f \<Rightarrow> writable f)"

text \<open>
  \<^verbatim>\<open>targetField.Set(x)\<close> panics when the field cannot be set, when \<open>x\<close> is the invalid
  value (\<^verbatim>\<open>reflect.ValueOf\<close> of a nil interface) and when \<open>x\<close> is not assignable to the
  field's type; otherwise it stores \<open>x\<close> in the field, in place.
\<close>

fun Set_field :: "fieldref \<Rightarrow> val \<Rightarrow> heap \<Rightarrow> heap exec" where
  "Set_field NoField x h = Panics"
| "Set_field (FieldOf a name) x h =
     (case h a of
        NonStruct \<Rightarrow> Panics
      | Struct t fs \<Rightarrow>
          (case fs name of
             None \<Rightarrow> Panics
           | Some f \<Rightarrow>
               if \<not> writable f \<or> x = NilIface \<or> \<not> assignable f then Panics
               else Returns (h(a := Struct t (fs(name \<mapsto> Field (writable f) (assignable f) x))))))"

section \<open>The package\<close>

subsection \<open>getLayerValue\<close>

definition getLayerValue :: "val \<Rightarrow> (val \<times> bool) exec" where
  "getLayerValue layer =
     (if layer = NilIface then Returns (NilIface, False)
      else (case IsZero layer of
              Panics \<Rightarrow> Panics
            | Returns isZero \<Rightarrow>
                if isZero then Returns (layer, False)
                else (case IsNil layer of
                        Panics \<Rightarrow> Panics
                      | Returns isNil \<Rightarrow>
                          if isNil then Returns (layer, False)
                          else if Kind layer \<noteq> Pointer then Returns (layer, False)
                          else Returns (layer, True))))"

subsection \<open>If and IfCallback\<close>

text \<open>
  \<^verbatim>\<open>If\<close> and \<^verbatim>\<open>IfCallback\<close> are generic in \<open>T\<close>, and \<open>T\<close> may be any type, inferred from
  the layer where it is not given: \<^verbatim>\<open>If[Service](false, &LayerB{})\<close> is the nil interface,
  \<^verbatim>\<open>If(false, &LayerB{})\<close> with \<open>T\<close> the pointer type is a typed nil pointer. So the zero
  value \<^verbatim>\<open>*new(T)\<close> is a parameter, \<open>zero\<close>; \<open>zero_value\<close> gives it for each kind of type
  that \<open>T\<close> can be: an interface type, a pointer type, another type with a nil (map,
  slice, chan, func, unsafe pointer), any other type. (\<open>If_layer\<close> is the source's
  \<^verbatim>\<open>If\<close>.)
\<close>

datatype tkind = TInterface | TPointer | TNilable | TOther

fun zero_value :: "tkind \<Rightarrow> val" where
  "zero_value TInterface = NilIface"
| "zero_value TPointer = NilPtr"
| "zero_value TNilable = NilRef"
| "zero_value TOther = ZeroVal"

definition If_layer :: "val \<Rightarrow> bool \<Rightarrow> val \<Rightarrow> val" where
  "If_layer zero cond layer = (if cond then layer else zero)"

text \<open>
  The callback of \<^verbatim>\<open>IfCallback\<close> may have effects, so it is a function on a state \<open>'s\<close>
  of its own that returns the layer and the new state.
\<close>

definition IfCallback :: "val \<Rightarrow> bool \<Rightarrow> ('s \<Rightarrow> val \<times> 's) \<Rightarrow> 's \<Rightarrow> val \<times> 's" where
  "IfCallback zero cond layer s = (if cond then layer s else (zero, s))"

text \<open>A callback that returns \<open>l\<close> and counts how often it has been invoked.\<close>

definition counting :: "val \<Rightarrow> nat \<Rightarrow> val \<times> nat" where
  "counting l n = (l, Suc n)"

subsection \<open>Layered\<close>

text \<open>
  \<^verbatim>\<open>strings.Split(s, ".")\<close>, and the name of \<open>T\<close> as \<^verbatim>\<open>Layered\<close> computes it from
  \<^verbatim>\<open>fmt.Sprintf("%T", new(T))\<close>, which is the parameter \<open>tname\<close> (\<^verbatim>\<open>*cake.Service\<close> for the
  interface \<^verbatim>\<open>Service\<close> of package \<^verbatim>\<open>cake\<close>). Indexing the parts at 1 panics when the
  printed type has no dot.
\<close>

fun split_dot :: "string \<Rightarrow> string list" where
  "split_dot [] = [[]]"
| "split_dot (c # cs) =
     (if c = CHR ''.'' then [] # split_dot cs
      else (case split_dot cs of [] \<Rightarrow> [[c]] | p # ps \<Rightarrow> (c # p) # ps))"

definition nameOfT :: "string \<Rightarrow> string exec" where
  "nameOfT tname =
     (let parts = split_dot tname in if 1 < length parts then Returns (parts ! 1) else Panics)"

datatype error = CannotBeSet val

type_synonym result = "((val \<times> error option) \<times> heap) exec"

text \<open>
  The inner loop \<^verbatim>\<open>for j := i + 1; j < len(layers); j++\<close>. It returns \<open>didSet\<close>, the
  outer index \<open>i\<close> (set to \<open>j - 1\<close> when a layer was found) and the store.
\<close>

function seek :: "val list \<Rightarrow> fieldref \<Rightarrow> nat \<Rightarrow> nat \<Rightarrow> heap \<Rightarrow> ((bool \<times> nat) \<times> heap) exec" where
  "seek layers targetField i j h =
     (if j < length layers then
        (case getLayerValue (layers ! j) of
           Panics \<Rightarrow> Panics
         | Returns (nextLayerValue, ok) \<Rightarrow>
             if \<not> ok then seek layers targetField i (j + 1) h
             else (case Set_field targetField nextLayerValue h of
                     Panics \<Rightarrow> Panics
                   | Returns h' \<Rightarrow> Returns ((True, j - 1), h')))
      else Returns ((False, i), h))"
  by pat_completeness auto
termination
  by (relation "measure (\<lambda>(layers, targetField, i, j, h). length layers - j)") auto

declare seek.simps [simp del]

text \<open>\<^verbatim>\<open>return layers[entryLayer], nil\<close>: indexing panics when the index is out of range.\<close>

definition finish :: "val list \<Rightarrow> int \<Rightarrow> heap \<Rightarrow> result" where
  "finish layers entryLayer h =
     (if 0 \<le> entryLayer \<and> entryLayer < int (length layers)
      then Returns ((layers ! nat entryLayer, None), h)
      else Panics)"

text \<open>
  When the inner loop has set the slot, the index it leaves behind is that of a later
  position: the outer loop goes forward. (Needed for the termination of the outer loop.)
\<close>

lemma seek_found_ge:
  "seek layers tf i j h = Returns ((True, i'), h') \<Longrightarrow> 0 < j \<Longrightarrow>
   j \<le> i' + 1 \<and> i' + 1 < length layers"
proof (induction layers tf i j h rule: seek.induct)
  case (1 layers targetField i j h)
  show ?case
  proof (cases "getLayerValue (layers ! j)")
    case Panics
    with "1.prems" show ?thesis
      by (simp add: seek.simps [of layers targetField i j] split: if_splits)
  next
    case (Returns r)
    obtain v ok where r: "r = (v, ok)" by (cases r)
    show ?thesis
    proof (cases ok)
      case True
      with "1.prems" Returns r show ?thesis
        by (auto simp add: seek.simps [of layers targetField i j] split: if_splits exec.splits)
    next
      case False
      with "1.prems" Returns r have lt: "j < length layers"
        and s: "seek layers targetField i (j + 1) h = Returns ((True, i'), h')"
        by (auto simp add: seek.simps [of layers targetField i j] split: if_splits)
      from "1.IH" [OF lt Returns r [symmetric] False s] show ?thesis by simp
    qed
  qed
qed

text \<open>
  The outer loop \<^verbatim>\<open>for i := 0; i < len(layers); i++\<close> with its final
  \<^verbatim>\<open>return layers[entryLayer], nil\<close>. A \<^verbatim>\<open>break\<close> goes to that return; after the inner
  loop has set \<open>i = j - 1\<close> the increment of the loop makes it \<open>i' + 1\<close>.
\<close>

function walk :: "string \<Rightarrow> val \<Rightarrow> val list \<Rightarrow> nat \<Rightarrow> int \<Rightarrow> heap \<Rightarrow> result" where
  "walk interfaceName base layers i entryLayer h =
     (if i < length layers then
        (case getLayerValue (layers ! i) of
           Panics \<Rightarrow> Panics
         | Returns (curLayerValue, ok) \<Rightarrow>
             if \<not> ok then walk interfaceName base layers (i + 1) entryLayer h
             else
               (case Elem curLayerValue of
                  Panics \<Rightarrow> Panics
                | Returns cur \<Rightarrow>
                    (case FieldByName h cur interfaceName of
                       Panics \<Rightarrow> Panics
                     | Returns targetField \<Rightarrow>
                         if \<not> IsValid targetField \<or> \<not> CanSet h targetField
                         then Returns ((NilIface, Some (CannotBeSet (layers ! i))), h)
                         else if i = length layers - 1
                         then (case Set_field targetField base h of
                                 Panics \<Rightarrow> Panics
                               | Returns h' \<Rightarrow>
                                   finish layers (if entryLayer = - 1 then int i else entryLayer) h')
                         else (case seek layers targetField i (i + 1) h of
                                 Panics \<Rightarrow> Panics
                               | Returns ((didSet, i'), h') \<Rightarrow>
                                   if \<not> didSet
                                   then (case Set_field targetField base h' of
                                           Panics \<Rightarrow> Panics
                                         | Returns h'' \<Rightarrow>
                                             finish layers
                                               (if entryLayer = - 1 then int i else entryLayer) h'')
                                   else walk interfaceName base layers (i' + 1)
                                          (if entryLayer = - 1 then int i else entryLayer) h'))))
      else finish layers entryLayer h)"
  by pat_completeness auto
termination
proof (relation "measure (\<lambda>(n, b, layers, i, e, h). length layers - i)")
  show "wf (measure (\<lambda>(n, b, layers, i, e, h). length layers - i))" by simp
qed (auto dest!: seek_found_ge)

declare walk.simps [simp del]

definition Layered :: "string \<Rightarrow> val \<Rightarrow> val list \<Rightarrow> heap \<Rightarrow> result" where
  "Layered tname base layers h =
     (if length layers = 0 then Returns ((base, None), h)
      else (case nameOfT tname of
              Panics \<Rightarrow> Panics
            | Returns interfaceName \<Rightarrow> walk interfaceName base layers 0 (- 1) h))"

subsection \<open>The earlier Layered of layers.go\<close>




subsection \<open>The services of the tests\<close>

text \<open>
  The test with the interface \<^verbatim>\<open>Service\<close> of the one method \<^verbatim>\<open>Words\<close>: \<^verbatim>\<open>LayerA\<close> to
  \<^verbatim>\<open>LayerE\<close> embed \<^verbatim>\<open>Service\<close>. \<^verbatim>\<open>Words\<close> is dispatched on the dynamic type of the
  receiver; \<^verbatim>\<open>LayerE\<close> has no method of its own, so the call is promoted to the
  embedded field. A call through a nil \<^verbatim>\<open>Service\<close> panics; the fuel bounds the depth of
  the delegation, which a cyclic store would not bound. \<open>None\<close> is a panic or the end of
  the fuel.
\<close>

definition Service_of :: "(string \<rightharpoonup> field) \<Rightarrow> val" where
  "Service_of fs = (case fs ''Service'' of None \<Rightarrow> NilIface | Some f \<Rightarrow> content f)"

fun Words :: "nat \<Rightarrow> heap \<Rightarrow> val \<Rightarrow> string list option" where
  "Words 0 h l = None"
| "Words (Suc n) h l =
     (case l of
        Ptr a \<Rightarrow>
          (case h a of
             NonStruct \<Rightarrow> None
           | Struct t fs \<Rightarrow>
               if t = ''LayerA'' then Some [''Artichoke'']
               else if t = ''LayerB''
               then map_option (\<lambda>ws. ws @ [''Basil'']) (Words n h (Service_of fs))
               else if t = ''LayerC''
               then map_option (\<lambda>ws. ws @ [''Cilantro'']) (Words n h (Service_of fs))
               else if t = ''LayerD''
               then map_option (\<lambda>ws. ws @ [''Dill'']) (Words n h (Service_of fs))
               else if t = ''LayerE'' then Words n h (Service_of fs)
               else None)
      | _ \<Rightarrow> None)"

text \<open>\<^verbatim>\<open>&LayerB{}\<close> and the like: a fresh struct whose embedded \<^verbatim>\<open>Service\<close> is nil.\<close>

definition new_layer :: "string \<Rightarrow> obj" where
  "new_layer t = Struct t [''Service'' \<mapsto> Field True True NilIface]"

text \<open>The store of the tests: \<^verbatim>\<open>&LayerA{}\<close> at 0, ..., \<^verbatim>\<open>&LayerE{}\<close> at 4.\<close>

definition test_heap :: heap where
  "test_heap = (\<lambda>a. NonStruct)(0 := new_layer ''LayerA'', 1 := new_layer ''LayerB'',
     2 := new_layer ''LayerC'', 3 := new_layer ''LayerD'', 4 := new_layer ''LayerE'')"


section \<open>The vocabulary of the specification\<close>

text \<open>
  A layer is usable when \<^verbatim>\<open>getLayerValue\<close> answers \<open>ok\<close>, empty when it answers not
  \<open>ok\<close>, and neither when \<^verbatim>\<open>getLayerValue\<close> panics.
\<close>

definition usable :: "val \<Rightarrow> bool" where
  "usable l = (case getLayerValue l of Panics \<Rightarrow> False | Returns (v, ok) \<Rightarrow> ok)"

definition empty_layer :: "val \<Rightarrow> bool" where
  "empty_layer l = (case getLayerValue l of Panics \<Rightarrow> False | Returns (v, ok) \<Rightarrow> \<not> ok)"

text \<open>The delegate slot of a layer: the field of the struct it points to, by name.\<close>

definition slot_of :: "string \<Rightarrow> heap \<Rightarrow> val \<Rightarrow> field option" where
  "slot_of name h l =
     (case l of
        Ptr a \<Rightarrow> (case h a of NonStruct \<Rightarrow> None | Struct t fs \<Rightarrow> fs name)
      | _ \<Rightarrow> None)"

definition points_to_struct :: "heap \<Rightarrow> val \<Rightarrow> bool" where
  "points_to_struct h l =
     (case l of
        Ptr a \<Rightarrow> (case h a of NonStruct \<Rightarrow> False | Struct t fs \<Rightarrow> True)
      | _ \<Rightarrow> False)"

text \<open>The slot exists and can be set (\<^verbatim>\<open>IsValid\<close> and \<^verbatim>\<open>CanSet\<close>).\<close>

definition settable :: "string \<Rightarrow> heap \<Rightarrow> val \<Rightarrow> bool" where
  "settable name h l = (case slot_of name h l of None \<Rightarrow> False | Some f \<Rightarrow> writable f)"

text \<open>The slot, where there is one, has a type that takes the values of \<open>T\<close>.\<close>

definition slot_typed :: "string \<Rightarrow> heap \<Rightarrow> val \<Rightarrow> bool" where
  "slot_typed name h l = (case slot_of name h l of None \<Rightarrow> True | Some f \<Rightarrow> assignable f)"




text \<open>
  The walk over the usable layers alone, by recursion on their list: each one's slot is
  checked, then set to the next one, the last one's to the base.
\<close>

fun wire :: "string \<Rightarrow> val \<Rightarrow> val list \<Rightarrow> heap \<Rightarrow> (error option \<times> heap) exec" where
  "wire name base [] h = Returns (None, h)"
| "wire name base (l # ls) h =
     (case Elem l of
        Panics \<Rightarrow> Panics
      | Returns cur \<Rightarrow>
          (case FieldByName h cur name of
             Panics \<Rightarrow> Panics
           | Returns targetField \<Rightarrow>
               if \<not> IsValid targetField \<or> \<not> CanSet h targetField
               then Returns (Some (CannotBeSet l), h)
               else (case Set_field targetField (case ls of [] \<Rightarrow> base | l' # ls' \<Rightarrow> l') h of
                       Panics \<Rightarrow> Panics
                     | Returns h' \<Rightarrow> wire name base ls h')))"

definition wired :: "val \<Rightarrow> (error option \<times> heap) exec \<Rightarrow> result" where
  "wired entry r =
     (case r of
        Panics \<Rightarrow> Panics
      | Returns (None, h') \<Rightarrow> Returns ((entry, None), h')
      | Returns (Some e, h') \<Rightarrow> Returns ((NilIface, Some e), h'))"

text \<open>
  The walk as a recursion on the list of layers as they are given, inspecting each layer
  when the loops do: \<open>first_usable\<close> is the forward scan of the inner loop, and \<open>link\<close>
  returns the first usable layer it has met, the error, and the store.
\<close>

fun first_usable :: "val list \<Rightarrow> val option exec" where
  "first_usable [] = Returns None"
| "first_usable (l # ls) =
     (case getLayerValue l of
        Panics \<Rightarrow> Panics
      | Returns (v, ok) \<Rightarrow> if ok then Returns (Some v) else first_usable ls)"

fun link :: "string \<Rightarrow> val \<Rightarrow> val list \<Rightarrow> heap \<Rightarrow> ((val option \<times> error option) \<times> heap) exec" where
  "link name base [] h = Returns ((None, None), h)"
| "link name base (l # ls) h =
     (case getLayerValue l of
        Panics \<Rightarrow> Panics
      | Returns (v, ok) \<Rightarrow>
          if \<not> ok then link name base ls h
          else
            (case Elem v of
               Panics \<Rightarrow> Panics
             | Returns cur \<Rightarrow>
                 (case FieldByName h cur name of
                    Panics \<Rightarrow> Panics
                  | Returns targetField \<Rightarrow>
                      if \<not> IsValid targetField \<or> \<not> CanSet h targetField
                      then Returns ((Some l, Some (CannotBeSet l)), h)
                      else (case first_usable ls of
                              Panics \<Rightarrow> Panics
                            | Returns nxt \<Rightarrow>
                                (case Set_field targetField (case nxt of None \<Rightarrow> base | Some l' \<Rightarrow> l') h of
                                   Panics \<Rightarrow> Panics
                                 | Returns h' \<Rightarrow>
                                     (case link name base ls h' of
                                        Panics \<Rightarrow> Panics
                                      | Returns ((f, err), h'') \<Rightarrow> Returns ((Some l, err), h'')))))))"

text \<open>What \<^verbatim>\<open>Layered\<close> returns after the walk, \<open>e\<close> being \<^verbatim>\<open>entryLayer\<close> before it.\<close>

definition linked :: "val list \<Rightarrow> int \<Rightarrow> ((val option \<times> error option) \<times> heap) exec \<Rightarrow> result" where
  "linked layers e r =
     (case r of
        Panics \<Rightarrow> Panics
      | Returns ((f, err), h') \<Rightarrow>
          (case err of
             Some er \<Rightarrow> Returns ((NilIface, Some er), h')
           | None \<Rightarrow>
               if e \<noteq> - 1 then Returns ((layers ! nat e, None), h')
               else (case f of None \<Rightarrow> Panics | Some l \<Rightarrow> Returns ((l, None), h'))))"



section \<open>Counting the iterations\<close>

text \<open>
  \<open>T_seek\<close> and \<open>T_walk\<close> follow \<open>seek\<close> and \<open>walk\<close>, call by call, and count the
  executions of the two loop bodies: \<open>T_seek\<close> those of the inner loop, \<open>T_walk\<close> those of
  the outer loop at the cost \<open>c_outer\<close> each, and those of the inner loops it starts at the
  cost \<open>c_inner\<close> each.
\<close>

function T_seek :: "val list \<Rightarrow> fieldref \<Rightarrow> nat \<Rightarrow> nat \<Rightarrow> heap \<Rightarrow> nat" where
  "T_seek layers targetField i j h =
     (if j < length layers then
        1 + (case getLayerValue (layers ! j) of
               Panics \<Rightarrow> 0
             | Returns (nextLayerValue, ok) \<Rightarrow>
                 if \<not> ok then T_seek layers targetField i (j + 1) h else 0)
      else 0)"
  by pat_completeness auto
termination
  by (relation "measure (\<lambda>(layers, targetField, i, j, h). length layers - j)") auto

declare T_seek.simps [simp del]

function T_walk :: "nat \<Rightarrow> nat \<Rightarrow> string \<Rightarrow> val \<Rightarrow> val list \<Rightarrow> nat \<Rightarrow> int \<Rightarrow> heap \<Rightarrow> nat" where
  "T_walk c_outer c_inner interfaceName base layers i entryLayer h =
     (if i < length layers then
        c_outer +
        (case getLayerValue (layers ! i) of
           Panics \<Rightarrow> 0
         | Returns (curLayerValue, ok) \<Rightarrow>
             if \<not> ok then T_walk c_outer c_inner interfaceName base layers (i + 1) entryLayer h
             else
               (case Elem curLayerValue of
                  Panics \<Rightarrow> 0
                | Returns cur \<Rightarrow>
                    (case FieldByName h cur interfaceName of
                       Panics \<Rightarrow> 0
                     | Returns targetField \<Rightarrow>
                         if \<not> IsValid targetField \<or> \<not> CanSet h targetField then 0
                         else if i = length layers - 1 then 0
                         else c_inner * T_seek layers targetField i (i + 1) h +
                              (case seek layers targetField i (i + 1) h of
                                 Panics \<Rightarrow> 0
                               | Returns ((didSet, i'), h') \<Rightarrow>
                                   if \<not> didSet then 0
                                   else T_walk c_outer c_inner interfaceName base layers (i' + 1)
                                          (if entryLayer = - 1 then int i else entryLayer) h'))))
      else 0)"
  by pat_completeness auto
termination
proof (relation "measure (\<lambda>(co, ci, n, b, layers, i, e, h). length layers - i)")
  show "wf (measure (\<lambda>(co, ci, n, b, layers, i, e, h). length layers - i))" by simp
qed (auto dest!: seek_found_ge)

declare T_walk.simps [simp del]

definition T_Layered :: "nat \<Rightarrow> nat \<Rightarrow> string \<Rightarrow> val \<Rightarrow> val list \<Rightarrow> heap \<Rightarrow> nat" where
  "T_Layered c_outer c_inner tname base layers h =
     (if length layers = 0 then 0
      else (case nameOfT tname of
              Panics \<Rightarrow> 0
            | Returns interfaceName \<Rightarrow> T_walk c_outer c_inner interfaceName base layers 0 (- 1) h))"

section \<open>Auxiliary definitions\<close>

text \<open>The first position from \<open>j\<close> on that holds a usable layer (the length when there is none).\<close>

definition next_usable :: "val list \<Rightarrow> nat \<Rightarrow> nat" where
  "next_usable layers j = j + length (takeWhile (\<lambda>l. \<not> usable l) (drop j layers))"

text \<open>The store after \<^verbatim>\<open>Set\<close> has put \<open>x\<close> into the field \<open>name\<close> of the struct at \<open>a\<close>.\<close>

definition put_slot :: "string \<Rightarrow> addr \<Rightarrow> val \<Rightarrow> heap \<Rightarrow> heap" where
  "put_slot name a x h =
     (case h a of
        NonStruct \<Rightarrow> h
      | Struct t fs \<Rightarrow>
          (case fs name of
             None \<Rightarrow> h
           | Some f \<Rightarrow> h(a := Struct t (fs(name \<mapsto> Field (writable f) (assignable f) x)))))"


text \<open>Two stores agree on which layers point to a struct and on the state of their slots.\<close>

definition same_slots :: "string \<Rightarrow> heap \<Rightarrow> heap \<Rightarrow> bool" where
  "same_slots name h1 h =
     (\<forall>l. settable name h1 l = settable name h l \<and> slot_typed name h1 l = slot_typed name h l \<and>
          points_to_struct h1 l = points_to_struct h l)"

section \<open>Properties of the model\<close>

subsection \<open>Usable layers\<close>

lemma getLayerValue_cases:
  "getLayerValue l =
     (case l of Plain n \<Rightarrow> Panics | Ptr a \<Rightarrow> Returns (l, True) | _ \<Rightarrow> Returns (l, False))"
  by (cases l) (simp_all add: getLayerValue_def)

lemma usable_iff: "usable l = (\<exists>a. l = Ptr a)"
  by (cases l) (simp_all add: usable_def getLayerValue_cases)

lemma empty_layer_iff:
  "empty_layer l = (l = NilIface \<or> l = NilPtr \<or> l = NilRef \<or> l = ZeroVal \<or> (\<exists>n. l = Ref n))"
  by (cases l) (simp_all add: empty_layer_def getLayerValue_cases)

lemma getLayerValue_usable: "usable l \<Longrightarrow> getLayerValue l = Returns (l, True)"
  by (auto simp add: usable_iff getLayerValue_cases)

lemma getLayerValue_not_usable:
  "\<not> usable l \<Longrightarrow> getLayerValue l \<noteq> Panics \<Longrightarrow> getLayerValue l = Returns (l, False)"
  by (cases l) (simp_all add: usable_iff getLayerValue_cases)

lemma next_usable_ge: "j \<le> next_usable layers j"
  by (simp add: next_usable_def)

lemma next_usable_Suc:
  "j < length layers \<Longrightarrow> \<not> usable (layers ! j) \<Longrightarrow> next_usable layers j = next_usable layers (Suc j)"
  by (simp add: next_usable_def Cons_nth_drop_Suc [symmetric])

lemma next_usable_here:
  "j < length layers \<Longrightarrow> usable (layers ! j) \<Longrightarrow> next_usable layers j = j"
  by (simp add: next_usable_def Cons_nth_drop_Suc [symmetric])

subsection \<open>Setting a slot\<close>

lemma put_slot_other: "b \<noteq> a \<Longrightarrow> put_slot name a x h b = h b"
  by (simp add: put_slot_def split: obj.splits option.splits)

lemma slot_of_put_slot:
  "slot_of name (put_slot name a x h) l =
     (if l = Ptr a then map_option (\<lambda>f. Field (writable f) (assignable f) x) (slot_of name h l)
      else slot_of name h l)"
  by (cases l) (auto simp add: slot_of_def put_slot_def split: obj.splits option.splits)

lemma points_to_struct_put_slot [simp]:
  "points_to_struct (put_slot name a x h) l = points_to_struct h l"
  by (cases l) (auto simp add: points_to_struct_def put_slot_def split: obj.splits option.splits)

lemma settable_put_slot [simp]: "settable name (put_slot name a x h) l = settable name h l"
  by (auto simp add: settable_def slot_of_put_slot split: option.splits)

lemma slot_typed_put_slot [simp]: "slot_typed name (put_slot name a x h) l = slot_typed name h l"
  by (auto simp add: slot_typed_def slot_of_put_slot split: option.splits)




lemma wire_Cons_Ptr:
  "wire name base (Ptr a # ls) h =
     (if \<not> points_to_struct h (Ptr a) then Panics
      else if \<not> settable name h (Ptr a) then Returns (Some (CannotBeSet (Ptr a)), h)
      else if (case ls of [] \<Rightarrow> base | l' # ls' \<Rightarrow> l') = NilIface \<or> \<not> slot_typed name h (Ptr a)
      then Panics
      else wire name base ls (put_slot name a (case ls of [] \<Rightarrow> base | l' # ls' \<Rightarrow> l') h))"
  by (auto simp add: points_to_struct_def settable_def slot_typed_def slot_of_def put_slot_def
      IsValid_def CanSet_def split: obj.splits option.splits)

subsection \<open>Wiring a list of usable layers\<close>

declare wire.simps(2) [simp del]

lemma same_slots_refl [simp]: "same_slots name h h"
  by (simp add: same_slots_def)





lemma wire_not_Ptr:
  "wire name base (l # ls) h = Returns r \<Longrightarrow> \<exists>a. l = Ptr a"
  by (cases l) (simp_all add: wire.simps(2) split: exec.splits)

lemma wire_frame:
  "wire name base us h = Returns (r, h') \<Longrightarrow> Ptr a \<notin> set us \<Longrightarrow> h' a = h a"
proof (induction us arbitrary: h)
  case Nil
  then show ?case by simp
next
  case (Cons l ls)
  from wire_not_Ptr [OF Cons.prems(1)] obtain b where l: "l = Ptr b" by blast
  with Cons.prems(2) have ne: "a \<noteq> b" and nin: "Ptr a \<notin> set ls" by auto
  show ?case
  proof (cases "wire name base ls (put_slot name b (case ls of [] \<Rightarrow> base | l' # ls' \<Rightarrow> l') h) = Returns (r, h')")
    case True
    from Cons.IH [OF this nin] ne show ?thesis by (simp add: put_slot_other)
  next
    case False
    with Cons.prems(1) show ?thesis
      unfolding l by (auto simp add: wire_Cons_Ptr split: if_splits)
  qed
qed

subsection \<open>The walk over the layers as given\<close>

lemma getLayerValue_fst: "getLayerValue l = Returns (v, ok) \<Longrightarrow> v = l \<and> ok = usable l"
  by (cases l) (auto simp add: getLayerValue_cases usable_iff)

text \<open>The inner loop is the forward scan, followed by \<^verbatim>\<open>Set\<close> when a layer was found.\<close>

lemma seek_first_usable:
  "seek layers tf i j h =
     (case first_usable (drop j layers) of
        Panics \<Rightarrow> Panics
      | Returns None \<Rightarrow> Returns ((False, i), h)
      | Returns (Some l') \<Rightarrow>
          (case Set_field tf l' h of
             Panics \<Rightarrow> Panics
           | Returns h' \<Rightarrow> Returns ((True, next_usable layers j - 1), h')))"
proof (induction layers tf i j h rule: seek.induct)
  case (1 layers targetField i j h)
  show ?case
  proof (cases "j < length layers")
    case False
    then show ?thesis by (simp add: seek.simps [of layers targetField i j])
  next
    case lt: True
    have d: "drop j layers = layers ! j # drop (Suc j) layers"
      using lt by (simp add: Cons_nth_drop_Suc)
    show ?thesis
    proof (cases "getLayerValue (layers ! j)")
      case Panics
      with lt show ?thesis by (simp add: seek.simps [of layers targetField i j] d)
    next
      case (Returns r)
      obtain v ok where r: "r = (v, ok)" by (cases r)
      from Returns r have v: "v = layers ! j" and ok: "ok = usable (layers ! j)"
        by (simp_all add: getLayerValue_fst)
      show ?thesis
      proof (cases ok)
        case True
        with lt Returns r v ok show ?thesis
          by (simp add: seek.simps [of layers targetField i j] d next_usable_here
              split: exec.splits)
      next
        case False
        have "seek layers targetField i j h = seek layers targetField i (j + 1) h"
          using lt Returns r False by (simp add: seek.simps [of layers targetField i j])
        also note "1.IH" [OF lt Returns r [symmetric] False]
        finally show ?thesis
          using lt Returns r False ok
          by (simp add: d next_usable_Suc split: exec.splits option.splits)
      qed
    qed
  qed
qed

lemma first_usable_None:
  "first_usable ls = Returns None \<Longrightarrow> link name base ls h = Returns ((None, None), h)"
proof (induction ls)
  case Nil
  show ?case by simp
next
  case (Cons l ls)
  then show ?case by (auto split: exec.splits if_splits)
qed

lemma first_usable_Some:
  "first_usable (drop j layers) = Returns (Some l') \<Longrightarrow>
   next_usable layers j < length layers \<and> layers ! next_usable layers j = l' \<and>
   link name base (drop j layers) h = link name base (drop (next_usable layers j) layers) h"
proof (induction "length layers - j" arbitrary: j)
  case 0
  then show ?case by simp
next
  case (Suc n)
  then have lt: "j < length layers" by simp
  have d: "drop j layers = layers ! j # drop (Suc j) layers"
    using lt by (simp add: Cons_nth_drop_Suc)
  show ?case
  proof (cases "getLayerValue (layers ! j)")
    case Panics
    with Suc.prems show ?thesis by (simp add: d)
  next
    case (Returns r)
    obtain v ok where r: "r = (v, ok)" by (cases r)
    from Returns r have v: "v = layers ! j" and ok: "ok = usable (layers ! j)"
      by (simp_all add: getLayerValue_fst)
    show ?thesis
    proof (cases ok)
      case True
      with Suc.prems Returns r v ok lt show ?thesis
        by (simp add: d next_usable_here)
    next
      case False
      with Suc.prems Returns r have f: "first_usable (drop (Suc j) layers) = Returns (Some l')"
        by (simp add: d)
      have "n = length layers - Suc j" using Suc.hyps(2) by simp
      from Suc.hyps(1) [OF this f] show ?thesis
        using lt Returns r False ok by (simp add: next_usable_Suc) (simp add: d)
    qed
  qed
qed

text \<open>
  The outer loop from position \<open>i\<close> is \<open>link\<close> on the layers from \<open>i\<close> on, for every input:
  the same panics, the same error, the same store and the same entry layer.
\<close>

lemma walk_link:
  assumes e: "e = - 1 \<or> (0 \<le> e \<and> e < int (length layers))"
  shows "walk name base layers i e h = linked layers e (link name base (drop i layers) h)"
  using e
proof (induction "length layers - i" arbitrary: i e h rule: less_induct)
  case less
  note W = walk.simps [of name base layers i e h]
  show ?case
  proof (cases "i < length layers")
    case False
    then show ?thesis using less.prems by (auto simp add: W linked_def finish_def)
  next
    case lt: True
    have d: "drop i layers = layers ! i # drop (Suc i) layers"
      using lt by (simp add: Cons_nth_drop_Suc)
    show ?thesis
    proof (cases "getLayerValue (layers ! i)")
      case Panics
      with lt show ?thesis by (simp add: W d linked_def)
    next
      case (Returns r)
      obtain v ok where r: "r = (v, ok)" by (cases r)
      from Returns r have v: "v = layers ! i" by (simp add: getLayerValue_fst)
      show ?thesis
      proof (cases ok)
        case False
        have "walk name base layers i e h = walk name base layers (Suc i) e h"
          using lt Returns r False by (simp add: W)
        also have "\<dots> = linked layers e (link name base (drop (Suc i) layers) h)"
          using lt less.prems by (intro less.hyps) auto
        finally show ?thesis using Returns r False by (simp add: d)
      next
        case True
        define e' where "e' = (if e = - 1 then int i else e)"
        have e': "0 \<le> e' \<and> e' < int (length layers)" "e' \<noteq> - 1"
          using less.prems lt by (auto simp add: e'_def)
        have entry: "linked layers e
              (case r of
                 Panics \<Rightarrow> Panics
               | Returns ((f, err), h'') \<Rightarrow> Returns ((Some (layers ! i), err), h'')) =
            linked layers e' r" for r
          using e' by (auto simp add: linked_def e'_def split: exec.splits option.splits)
        show ?thesis
        proof (cases "Elem v")
          case Panics
          with lt Returns r True show ?thesis by (simp add: W d linked_def)
        next
          case el: (Returns cur)
          show ?thesis
          proof (cases "FieldByName h cur name")
            case Panics
            with lt Returns r True el show ?thesis by (simp add: W d linked_def)
          next
            case fb: (Returns tf)
            show ?thesis
            proof (cases "\<not> IsValid tf \<or> \<not> CanSet h tf")
              case True
              with lt Returns r \<open>ok\<close> el fb show ?thesis by (simp add: W d linked_def v)
            next
              case ok: False
              have L: "link name base (drop i layers) h =
                (case first_usable (drop (Suc i) layers) of
                   Panics \<Rightarrow> Panics
                 | Returns nxt \<Rightarrow>
                     (case Set_field tf (case nxt of None \<Rightarrow> base | Some l' \<Rightarrow> l') h of
                        Panics \<Rightarrow> Panics
                      | Returns h' \<Rightarrow>
                          (case link name base (drop (Suc i) layers) h' of
                             Panics \<Rightarrow> Panics
                           | Returns ((f, err), h'') \<Rightarrow> Returns ((Some (layers ! i), err), h''))))"
                using Returns r \<open>ok\<close> el fb ok by (simp add: d)
              show ?thesis
              proof (cases "first_usable (drop (Suc i) layers)")
                case Panics
                have "i \<noteq> length layers - 1"
                proof
                  assume "i = length layers - 1"
                  then have "drop (Suc i) layers = []" by simp
                  with Panics show False by simp
                qed
                then show ?thesis
                  using lt Returns r \<open>ok\<close> el fb ok Panics
                  by (simp add: W L linked_def seek_first_usable)
              next
                case fu: (Returns nxt)
                show ?thesis
                proof (cases nxt)
                  case None
                  have lk: "link name base (drop (Suc i) layers) h' = Returns ((None, None), h')" for h'
                    using fu None by (simp add: first_usable_None)
                  have "walk name base layers i e h =
                    (case Set_field tf base h of Panics \<Rightarrow> Panics | Returns h' \<Rightarrow> finish layers e' h')"
                    using lt Returns r \<open>ok\<close> el fb ok fu None
                    by (simp add: W seek_first_usable e'_def split: exec.splits)
                  also have "\<dots> = linked layers e (link name base (drop i layers) h)"
                    using e' less.prems lt
                    by (auto simp add: L fu None lk linked_def finish_def e'_def split: exec.splits)
                  finally show ?thesis .
                next
                  case (Some l')
                  define j where "j = next_usable layers (Suc i)"
                  from first_usable_Some [OF fu [unfolded Some]]
                  have jlt: "j < length layers" and lj: "layers ! j = l'"
                    and lk: "link name base (drop (Suc i) layers) h' = link name base (drop j layers) h'" for h'
                    by (simp_all add: j_def)
                  have jge: "Suc i \<le> j" by (simp add: j_def next_usable_ge)
                  then have il: "i \<noteq> length layers - 1" using jlt by simp
                  have "walk name base layers i e h =
                    (case Set_field tf l' h of Panics \<Rightarrow> Panics
                     | Returns h' \<Rightarrow> walk name base layers j e' h')"
                    using lt Returns r \<open>ok\<close> el fb ok fu Some il jge
                    by (simp add: W seek_first_usable e'_def j_def split: exec.splits)
                  also have "\<dots> = (case Set_field tf l' h of Panics \<Rightarrow> Panics
                     | Returns h' \<Rightarrow> linked layers e' (link name base (drop j layers) h'))"
                  proof -
                    have "walk name base layers j e' h' =
                        linked layers e' (link name base (drop j layers) h')" for h'
                      using jge jlt e' by (intro less.hyps) auto
                    then show ?thesis by (simp split: exec.splits)
                  qed
                  also have "\<dots> = linked layers e (link name base (drop i layers) h)"
                  proof (cases "Set_field tf l' h")
                    case Panics
                    then show ?thesis by (simp add: L fu Some linked_def)
                  next
                    case (Returns h')
                    then show ?thesis by (simp add: L fu Some lk entry)
                  qed
                  finally show ?thesis .
                qed
              qed
            qed
          qed
        qed
      qed
    qed
  qed
qed

lemma Layered_link:
  "nameOfT tname = Returns name \<Longrightarrow> layers \<noteq> [] \<Longrightarrow>
   Layered tname base layers h = linked layers (- 1) (link name base layers h)"
  using walk_link [of "- 1" layers name base 0 h] by (simp add: Layered_def)

lemma link_Cons_not_usable:
  "\<not> usable l \<Longrightarrow> getLayerValue l \<noteq> Panics \<Longrightarrow> link name base (l # ls) h = link name base ls h"
  by (simp add: getLayerValue_not_usable)

lemma link_Cons_Ptr:
  "link name base (Ptr a # ls) h =
     (if \<not> points_to_struct h (Ptr a) then Panics
      else if \<not> settable name h (Ptr a)
      then Returns ((Some (Ptr a), Some (CannotBeSet (Ptr a))), h)
      else (case first_usable ls of
              Panics \<Rightarrow> Panics
            | Returns nxt \<Rightarrow>
                if (case nxt of None \<Rightarrow> base | Some l' \<Rightarrow> l') = NilIface \<or> \<not> slot_typed name h (Ptr a)
                then Panics
                else (case link name base ls
                             (put_slot name a (case nxt of None \<Rightarrow> base | Some l' \<Rightarrow> l') h) of
                        Panics \<Rightarrow> Panics
                      | Returns ((f, err), h'') \<Rightarrow> Returns ((Some (Ptr a), err), h''))))"
  by (auto simp add: getLayerValue_cases points_to_struct_def settable_def slot_typed_def
      slot_of_def put_slot_def IsValid_def CanSet_def split: obj.splits option.splits exec.splits)

declare link.simps(2) [simp del]


lemma first_usable_filter:
  "\<forall>l\<in>set ls. getLayerValue l \<noteq> Panics \<Longrightarrow>
   first_usable ls = Returns (case filter usable ls of [] \<Rightarrow> None | l # ls' \<Rightarrow> Some l)"
proof (induction ls)
  case Nil
  show ?case by simp
next
  case (Cons l ls)
  then show ?case
    by (cases "usable l") (simp_all add: getLayerValue_usable getLayerValue_not_usable)
qed

text \<open>On layers that can all be inspected the walk is \<open>wire\<close> on the usable ones.\<close>

lemma link_wire:
  "\<forall>l\<in>set ls. getLayerValue l \<noteq> Panics \<Longrightarrow>
   link name base ls h =
     (case wire name base (filter usable ls) h of
        Panics \<Rightarrow> Panics
      | Returns (err, h') \<Rightarrow>
          Returns ((case filter usable ls of [] \<Rightarrow> None | l # ls' \<Rightarrow> Some l, err), h'))"
proof (induction ls arbitrary: h)
  case Nil
  show ?case by simp
next
  case (Cons l ls)
  show ?case
  proof (cases "usable l")
    case False
    with Cons show ?thesis by (simp add: link_Cons_not_usable split: exec.splits)
  next
    case True
    then obtain a where a: "l = Ptr a" by (auto simp add: usable_iff)
    have fu: "first_usable ls = Returns (case filter usable ls of [] \<Rightarrow> None | l # ls' \<Rightarrow> Some l)"
      using Cons.prems by (simp add: first_usable_filter)
    have nx: "(case (case filter usable ls of [] \<Rightarrow> None | l # ls' \<Rightarrow> Some l) of
                 None \<Rightarrow> base | Some l' \<Rightarrow> l') =
              (case filter usable ls of [] \<Rightarrow> base | l' # ls' \<Rightarrow> l')"
      by (simp split: list.splits)
    have ih: "link name base ls h' =
       (case wire name base (filter usable ls) h' of
          Panics \<Rightarrow> Panics
        | Returns (err, h'') \<Rightarrow>
            Returns ((case filter usable ls of [] \<Rightarrow> None | l # ls' \<Rightarrow> Some l, err), h''))" for h'
      using Cons.prems by (intro Cons.IH) simp
    have u: "usable (Ptr a)" using True by (simp add: a)
    show ?thesis
      unfolding a by (simp add: link_Cons_Ptr wire_Cons_Ptr u fu nx ih split: exec.splits)
  qed
qed



lemma Layered_wire:
  assumes "nameOfT tname = Returns name"
    and "\<forall>l\<in>set layers. getLayerValue l \<noteq> Panics"
    and "filter usable layers = l # ls"
  shows "Layered tname base layers h = wired l (wire name base (l # ls) h)"
proof -
  from assms(3) have "layers \<noteq> []" by auto
  from Layered_link [OF assms(1) this] show ?thesis
    by (simp add: link_wire [OF assms(2)] assms(3) linked_def wired_def
        split: exec.splits option.splits)
qed

lemma Layered_no_usable:
  assumes "layers \<noteq> []" and "\<forall>l\<in>set layers. empty_layer l"
  shows "Layered tname base layers h = Panics"
proof (cases "nameOfT tname")
  case Panics
  with assms(1) show ?thesis by (simp add: Layered_def)
next
  case (Returns name)
  have ins: "\<forall>l\<in>set layers. getLayerValue l \<noteq> Panics"
    using assms(2) by (auto simp add: empty_layer_def)
  have "\<forall>l\<in>set layers. \<not> usable l"
    using assms(2) by (auto simp add: empty_layer_def usable_def split: exec.splits)
  then have "filter usable layers = []" by (simp add: filter_empty_conv)
  with Layered_link [OF Returns assms(1)] show ?thesis
    by (simp add: link_wire [OF ins] linked_def)
qed

subsection \<open>A walk that succeeds\<close>


subsection \<open>A walk that ends with the error\<close>


subsection \<open>The earlier loop\<close>


subsection \<open>The number of iterations\<close>

lemma T_seek_le: "T_seek layers tf i j h \<le> length layers - j"
proof (induction layers tf i j h rule: T_seek.induct)
  case (1 layers targetField i j h)
  show ?case
  proof (cases "j < length layers")
    case False
    then show ?thesis by (simp add: T_seek.simps [of layers targetField i j])
  next
    case lt: True
    show ?thesis
    proof (cases "getLayerValue (layers ! j)")
      case Panics
      with lt show ?thesis by (simp add: T_seek.simps [of layers targetField i j])
    next
      case (Returns r)
      obtain v ok where r: "r = (v, ok)" by (cases r)
      show ?thesis
      proof (cases ok)
        case True
        with lt Returns r show ?thesis by (simp add: T_seek.simps [of layers targetField i j])
      next
        case False
        from "1.IH" [OF lt Returns r [symmetric] False]
        have "T_seek layers targetField i (j + 1) h \<le> length layers - (j + 1)" .
        with lt Returns r False show ?thesis
          by (simp add: T_seek.simps [of layers targetField i j])
      qed
    qed
  qed
qed

lemma T_seek_found:
  "seek layers tf i j h = Returns ((True, i'), h') \<Longrightarrow> 0 < j \<Longrightarrow>
   T_seek layers tf i j h + j = i' + 2"
proof (induction layers tf i j h rule: seek.induct)
  case (1 layers targetField i j h)
  show ?case
  proof (cases "getLayerValue (layers ! j)")
    case Panics
    with "1.prems" show ?thesis
      by (simp add: seek.simps [of layers targetField i j] split: if_splits)
  next
    case (Returns r)
    obtain v ok where r: "r = (v, ok)" by (cases r)
    show ?thesis
    proof (cases ok)
      case True
      with "1.prems" Returns r show ?thesis
        by (auto simp add: seek.simps [of layers targetField i j]
            T_seek.simps [of layers targetField i j] split: if_splits exec.splits)
    next
      case False
      with "1.prems" Returns r have lt: "j < length layers"
        and s: "seek layers targetField i (j + 1) h = Returns ((True, i'), h')"
        by (auto simp add: seek.simps [of layers targetField i j] split: if_splits)
      from "1.IH" [OF lt Returns r [symmetric] False s]
      have "T_seek layers targetField i (j + 1) h + (j + 1) = i' + 2" by simp
      with lt Returns r False show ?thesis
        by (simp add: T_seek.simps [of layers targetField i j])
    qed
  qed
qed

lemma T_walk_le:
  "T_walk co ci name base layers i e h \<le>
     co * (length layers - i) + ci * (length layers - Suc i)"
proof (induction "length layers - i" arbitrary: i e h rule: less_induct)
  case less
  let ?n = "length layers"
  let ?B = "\<lambda>i. co * (?n - i) + ci * (?n - Suc i)"
  note T = T_walk.simps [of co ci name base layers i e h]
  show ?case
  proof (cases "i < ?n")
    case False
    then show ?thesis by (simp add: T)
  next
    case lt: True
    then obtain k where k: "?n = Suc (i + k)" by (metis less_imp_Suc_add)
    have mono: "co \<le> ?B i" using k by simp
    show ?thesis
    proof (cases "getLayerValue (layers ! i)")
      case Panics
      with lt mono show ?thesis by (simp add: T)
    next
      case (Returns r)
      obtain v ok where r: "r = (v, ok)" by (cases r)
      show ?thesis
      proof (cases ok)
        case False
        have "T_walk co ci name base layers (i + 1) e h \<le> ?B (i + 1)"
          using lt by (intro less.hyps) simp
        then have "co + T_walk co ci name base layers (i + 1) e h \<le> co + ?B (i + 1)" by simp
        also have "\<dots> \<le> ?B i" using k by (simp add: algebra_simps)
        finally show ?thesis using lt Returns r False by (simp add: T)
      next
        case True
        show ?thesis
        proof (cases "Elem v")
          case Panics
          with lt mono Returns r True show ?thesis by (simp add: T)
        next
          case e: (Returns cur)
          show ?thesis
          proof (cases "FieldByName h cur name")
            case Panics
            with lt mono Returns r True e show ?thesis by (simp add: T)
          next
            case f: (Returns tf)
            show ?thesis
            proof (cases "(\<not> IsValid tf \<or> \<not> CanSet h tf) \<or> i = ?n - 1")
              case True
              with lt mono Returns r \<open>ok\<close> e f show ?thesis by (auto simp add: T)
            next
              case go: False
              have Teq: "T_walk co ci name base layers i e h =
                co + (ci * T_seek layers tf i (Suc i) h +
                  (case seek layers tf i (Suc i) h of
                     Panics \<Rightarrow> 0
                   | Returns ((didSet, i'), h') \<Rightarrow>
                       if \<not> didSet then 0
                       else T_walk co ci name base layers (i' + 1)
                              (if e = - 1 then int i else e) h'))"
                using lt Returns r \<open>ok\<close> e f go by (simp add: T)
              have sk: "T_seek layers tf i (Suc i) h \<le> k"
                using T_seek_le [of layers tf i "Suc i" h] k by simp
              have c: "ci * T_seek layers tf i (Suc i) h \<le> co * k + ci * k"
                by (rule trans_le_add2 [OF mult_le_mono2 [OF sk]])
              show ?thesis
              proof (cases "seek layers tf i (Suc i) h")
                case Panics
                show ?thesis using k c by (simp add: Teq Panics)
              next
                case s: (Returns q)
                obtain didSet i' h' where q: "q = ((didSet, i'), h')" by (cases q) auto
                show ?thesis
                proof (cases didSet)
                  case False
                  show ?thesis using k c False by (simp add: Teq s q)
                next
                  case True
                  from seek_found_ge [of layers tf i "Suc i" h i' h'] s q True
                  have ge: "Suc i \<le> Suc i'" "Suc i' < ?n" by simp_all
                  from T_seek_found [of layers tf i "Suc i" h i' h'] s q True
                  have ts: "T_seek layers tf i (Suc i) h + Suc i = i' + 2" by simp
                  obtain a where a: "i' = i + a" using ge(1) by (metis Suc_le_mono le_Suc_ex)
                  obtain b where b: "?n = i' + 2 + b" using ge(2) by (metis add_2_eq_Suc' less_iff_Suc_add add_Suc)
                  have ts': "T_seek layers tf i (Suc i) h = a + 1" using ts a by simp
                  have "T_walk co ci name base layers (Suc i') (if e = - 1 then int i else e) h'
                      \<le> ?B (Suc i')"
                    using ge lt by (intro less.hyps) simp
                  then have "T_walk co ci name base layers (Suc i') (if e = - 1 then int i else e) h'
                      \<le> co * (b + 1) + ci * b"
                    by (simp add: b)
                  then have "T_walk co ci name base layers i e h \<le>
                      co + (ci * (a + 1) + (co * (b + 1) + ci * b))"
                    using True by (simp add: Teq s q ts')
                  also have "\<dots> \<le> ?B i"
                    by (simp add: a b algebra_simps)
                  finally show ?thesis .
                qed
              qed
            qed
          qed
        qed
      qed
    qed
  qed
qed

section \<open>Evaluation\<close>

lemma nameOfT_cake_Service: "nameOfT ''*cake.Service'' = Returns ''Service''"
  by (simp add: nameOfT_def)

lemmas eval_defs =
  Layered_def walk.simps seek.simps getLayerValue_def IsValid_def CanSet_def finish_def
  test_heap_def new_layer_def


section \<open>The claims\<close>

subsection \<open>C1\<close>




subsection \<open>C2\<close>

text \<open>
  C2. When there are layers and every one of them is empty, \<^verbatim>\<open>entryLayer\<close> is still \<open>-1\<close>
  at the final \<^verbatim>\<open>return layers[entryLayer], nil\<close>, and the index panics: \<^verbatim>\<open>Layered\<close> does
  not return the base, for any base, any \<open>T\<close> and any store.
\<close>

theorem Layered_all_empty_panics:
  assumes "layers \<noteq> []" and "list_all empty_layer layers"
  shows "Layered tname base layers h = Panics"
  using assms by (intro Layered_no_usable) (simp_all add: list_all_iff)

text \<open>
  C2 for one layer that \<^verbatim>\<open>If[Service]\<close> has switched off and for a list of a nil interface, a nil
  pointer and a zero value; with no layers at all the base is returned.
\<close>

theorem Layered_all_empty_panics_witness:
  "list_all empty_layer [If_layer (zero_value TInterface) False (Ptr 1)] \<and>
   Layered ''*cake.Service'' (Ptr 0) [If_layer (zero_value TInterface) False (Ptr 1)] test_heap = Panics \<and>
   list_all empty_layer [NilIface, NilPtr, ZeroVal] \<and>
   Layered ''*cake.Service'' (Ptr 0) [NilIface, NilPtr, ZeroVal] test_heap = Panics \<and>
   Layered ''*cake.Service'' (Ptr 0) [] test_heap = Returns ((Ptr 0, None), test_heap)"
  using Layered_all_empty_panics [of "[If_layer (zero_value TInterface) False (Ptr 1)]" "''*cake.Service''" "Ptr 0" test_heap]
    Layered_all_empty_panics [of "[NilIface, NilPtr, ZeroVal]" "''*cake.Service''" "Ptr 0" test_heap]
  by (simp add: empty_layer_iff If_layer_def Layered_def)

subsection \<open>C3\<close>




subsection \<open>C4\<close>

text \<open>
  C4. The test of the package: the base \<^verbatim>\<open>&LayerA{}\<close> (at 0) answers \<open>Artichoke\<close>, and
  \<^verbatim>\<open>&LayerB{}\<close>, \<^verbatim>\<open>&LayerC{}\<close>, \<^verbatim>\<open>&LayerD{}\<close> (at 1, 2, 3) delegate and then append their
  word. \<^verbatim>\<open>Words()\<close> on what \<^verbatim>\<open>Layered\<close> returns is Artichoke, Dill, Cilantro, Basil, with
  any fuel from 5 on, and so it is with a nil layer between C and D, and with the test's
  own \<^verbatim>\<open>&LayerE{}\<close> (at 4) between them, which is wired into the chain and forwards the
  call.
\<close>

theorem Layered_words_scenario:
  "(case Layered ''*cake.Service'' (Ptr 0) [Ptr 1, Ptr 2, Ptr 3] test_heap of
      Panics \<Rightarrow> False
    | Returns ((svc, err), h') \<Rightarrow>
        err = None \<and>
        Words (5 + k) h' svc = Some [''Artichoke'', ''Dill'', ''Cilantro'', ''Basil'']) \<and>
   (case Layered ''*cake.Service'' (Ptr 0) [Ptr 1, Ptr 2, NilIface, Ptr 3] test_heap of
      Panics \<Rightarrow> False
    | Returns ((svc, err), h') \<Rightarrow>
        err = None \<and>
        Words (5 + k) h' svc = Some [''Artichoke'', ''Dill'', ''Cilantro'', ''Basil'']) \<and>
   (case Layered ''*cake.Service'' (Ptr 0) [Ptr 1, Ptr 2, Ptr 4, Ptr 3] test_heap of
      Panics \<Rightarrow> False
    | Returns ((svc, err), h') \<Rightarrow>
        err = None \<and>
        Words (5 + k) h' svc = Some [''Artichoke'', ''Dill'', ''Cilantro'', ''Basil''])"
  by (simp add: eval_defs nameOfT_cake_Service Service_of_def eval_nat_numeral)

subsection \<open>C5\<close>

text \<open>
  C5. For usable layers \<open>l1\<close>, \<open>l2\<close> and an empty layer \<open>e\<close>, \<^verbatim>\<open>Layered\<close> on \<open>[l1, e, l2]\<close>
  and on \<open>[l1, l2]\<close> gives the same outcome: the same value and error and the same store
  (the same slots set to the same values), or a panic in both. The store changes at the
  objects of \<open>l1\<close> and \<open>l2\<close> at most: nothing is written for the empty layer.
\<close>

theorem empty_layer_transparent:
  assumes "usable l1" and "usable l2" and "empty_layer e"
  shows "Layered tname base [l1, e, l2] h = Layered tname base [l1, l2] h \<and>
         (case Layered tname base [l1, e, l2] h of
            Panics \<Rightarrow> True
          | Returns (r, h') \<Rightarrow> \<forall>a. Ptr a \<noteq> l1 \<and> Ptr a \<noteq> l2 \<longrightarrow> h' a = h a)"
proof (cases "nameOfT tname")
  case Panics
  then show ?thesis by (simp add: Layered_def)
next
  case (Returns name)
  have ne: "\<not> usable e" and ie: "getLayerValue e \<noteq> Panics"
    using assms(3) by (auto simp add: empty_layer_def usable_def split: exec.splits)
  have i1: "getLayerValue l1 \<noteq> Panics" and i2: "getLayerValue l2 \<noteq> Panics"
    using assms(1,2) by (auto simp add: usable_def split: exec.splits)
  have A: "Layered tname base [l1, e, l2] h = wired l1 (wire name base [l1, l2] h)"
    using assms(1,2) ne ie i1 i2 by (intro Layered_wire [OF Returns]) simp_all
  have B: "Layered tname base [l1, l2] h = wired l1 (wire name base [l1, l2] h)"
    using assms(1,2) i1 i2 by (intro Layered_wire [OF Returns]) simp_all
  have "h' a = h a" if "wire name base [l1, l2] h = Returns (r, h')" "Ptr a \<noteq> l1" "Ptr a \<noteq> l2"
    for r h' a
    using wire_frame [OF that(1), of a] that(2,3) by simp
  then show ?thesis
    by (auto simp add: A B wired_def split: exec.splits option.splits)
qed

text \<open>C5 with the layer that \<^verbatim>\<open>If[Service]\<close> has switched off.\<close>

theorem empty_layer_transparent_witness:
  "usable (Ptr 1) \<and> usable (Ptr 3) \<and> empty_layer (If_layer (zero_value TInterface) False (Ptr 2)) \<and>
   Layered ''*cake.Service'' (Ptr 0) [Ptr 1, If_layer (zero_value TInterface) False (Ptr 2), Ptr 3] test_heap =
   Layered ''*cake.Service'' (Ptr 0) [Ptr 1, Ptr 3] test_heap"
  using empty_layer_transparent [of "Ptr 1" "Ptr 3" "If_layer (zero_value TInterface) False (Ptr 2)" "''*cake.Service''"
      "Ptr 0" test_heap]
  by (simp add: usable_iff empty_layer_iff If_layer_def)

subsection \<open>C6\<close>

text \<open>
  C6. With no layers, \<^verbatim>\<open>Layered\<close> returns the base itself and a nil error, for every
  base, every type \<open>T\<close> and every store, and the store is the one it was given: nothing
  is built, and neither a panic nor an error is possible.
\<close>

theorem Layered_no_layers: "Layered tname base [] h = Returns ((base, None), h)"
  by (simp add: Layered_def)

subsection \<open>C7\<close>

text \<open>
  C7. For every type \<open>T\<close>, with \<open>zero\<close> its zero value: \<^verbatim>\<open>If\<close> returns the layer when the
  condition is true and \<open>zero\<close> when it is false. \<^verbatim>\<open>IfCallback\<close> does the same with the
  layer its callback makes: when the condition is true its result and effect are those of
  one call of the callback, when it is false the result is \<open>zero\<close> and the callback's state
  is untouched. With the callback that counts its calls: one call when true, none when
  false. And whatever kind of type \<open>T\<close> is, its zero value is an empty layer for
  \<^verbatim>\<open>getLayerValue\<close>.
\<close>

theorem If_IfCallback_contract:
  "If_layer zero True l = l \<and> If_layer zero False l = zero \<and>
   IfCallback zero True f s = f s \<and> IfCallback zero False f s = (zero, s) \<and>
   IfCallback zero True (counting l) n = (l, n + 1) \<and>
   IfCallback zero False (counting l) n = (zero, n) \<and>
   empty_layer (If_layer (zero_value T) False l) \<and>
   empty_layer (fst (IfCallback (zero_value T) False f s))"
  by (cases T) (simp_all add: If_layer_def IfCallback_def counting_def empty_layer_iff)

subsection \<open>C8\<close>

text \<open>
  C8. \<^verbatim>\<open>Layered\<close> terminates on every input: \<open>seek\<close> and \<open>walk\<close> are total, each index
  going forward in every iteration (the index the inner loop leaves behind is that of a
  later position). The outer loop body runs at most once for each position, and the inner
  loop bodies together at most once for each position after the first: for all costs of
  the two bodies, the cost of a call is at most \<open>c_outer\<close> times the length plus
  \<open>c_inner\<close> times the length less one.
\<close>

theorem Layered_linear:
  "T_Layered c_outer c_inner tname base layers h \<le>
     c_outer * length layers + c_inner * (length layers - 1)"
  using T_walk_le [of c_outer c_inner _ base layers 0 "- 1" h]
  by (simp add: T_Layered_def split: exec.splits)

subsection \<open>C9\<close>



subsection \<open>C10\<close>




end
